theory Spec2Isabelle
  imports Main "HOL-Library.Word" "HOL-Library.Char_ord" "HOL-Library.List_Lexorder"
begin

section \<open>Data model of the memory leak detector\<close>

text \<open>
  The header declares every byte count as \<open>size_t\<close> and every address as \<open>void*\<close>.
  Both are taken as 64-bit machine words, so \<open>+\<close> and \<open>-\<close> wrap modulo \<open>2 ^ 64\<close>
  exactly as the unsigned arithmetic of the source does; \<open>nullptr\<close> is the word \<open>0\<close>.
  A reading of \<open>std::chrono::steady_clock::now()\<close> is an explicit argument of the
  operations that take one.
\<close>

type_synonym size_t = "64 word"
type_synonym ptr = "64 word"
type_synonym time_point = nat

record AllocationInfo =
  pointer :: ptr
  size_a :: size_t
  file_a :: string
  line :: "32 word"
  function_a :: string
  timestamp :: time_point
  category :: string
  tracked :: bool

text \<open>The constructor of \<open>AllocationInfo\<close>: the time stamp is the clock reading, \<open>tracked\<close> is true.\<close>

definition make_AllocationInfo ::
  "time_point \<Rightarrow> ptr \<Rightarrow> size_t \<Rightarrow> string \<Rightarrow> 32 word \<Rightarrow> string \<Rightarrow> string \<Rightarrow> AllocationInfo" where
  "make_AllocationInfo now p sz f l func cat =
     \<lparr>pointer = p, size_a = sz, file_a = f, line = l, function_a = func,
      timestamp = now, category = cat, tracked = True\<rparr>"

record LeakDetectionStats =
  totalLeaks :: size_t
  totalLeakedBytes :: size_t
  peakMemoryUsage :: size_t
  currentMemoryUsage :: size_t
  leaksByCategory :: "(string \<times> size_t) list"
  leaksByFile :: "(string \<times> size_t) list"
  detectionTime :: time_point

text \<open>
  The private members of \<open>class MemoryLeakDetector\<close> (the trailing underscore of the
  source names is written \<open>_m\<close>).
\<close>

record MemoryLeakDetector =
  enabled_m :: bool
  allocations_m :: "(ptr \<times> AllocationInfo) list"
  currentMemoryUsage_m :: size_t
  peakMemoryUsage_m :: size_t
  categoryStats_m :: "(string \<times> size_t) list"

section \<open>The ordered map of the standard library\<close>

text \<open>
  A \<open>std::map\<close> is a list of key/value pairs in strictly ascending key order, which is
  the order its iterators walk. Pointers are ordered as unsigned words and strings
  lexicographically by byte value.
\<close>

definition map_inv :: "('k::linorder \<times> 'v) list \<Rightarrow> bool" where
  "map_inv xs = sorted_wrt (<) (map fst xs)"

text \<open>\<open>m[k] = v\<close>: overwrite the entry of \<open>k\<close>, or insert one at its place in the order.\<close>

fun map_assign :: "'k::linorder \<Rightarrow> 'v \<Rightarrow> ('k \<times> 'v) list \<Rightarrow> ('k \<times> 'v) list" where
  "map_assign k v [] = [(k, v)]"
| "map_assign k v ((a, b) # xs) =
     (if k < a then (k, v) # (a, b) # xs
      else if k = a then (k, v) # xs
      else (a, b) # map_assign k v xs)"

text \<open>\<open>m.erase(it)\<close> for the iterator \<open>it = m.find(k)\<close>: the entry found is removed.\<close>

fun map_erase :: "'k \<Rightarrow> ('k \<times> 'v) list \<Rightarrow> ('k \<times> 'v) list" where
  "map_erase k [] = []"
| "map_erase k ((a, b) # xs) = (if k = a then xs else (a, b) # map_erase k xs)"

text \<open>
  The value \<open>m[k]\<close> denotes when read: the stored one, or the value-initialised \<open>0\<close>
  that \<open>operator[]\<close> inserts for an absent key.
\<close>

definition map_at :: "('k \<times> size_t) list \<Rightarrow> 'k \<Rightarrow> size_t" where
  "map_at m k = (case map_of m k of None \<Rightarrow> 0 | Some v \<Rightarrow> v)"

text \<open>\<open>m[k] += s\<close> and \<open>m[k] -= s\<close>.\<close>

definition map_add_at :: "'k::linorder \<Rightarrow> size_t \<Rightarrow> ('k \<times> size_t) list \<Rightarrow> ('k \<times> size_t) list" where
  "map_add_at k s m = map_assign k (map_at m k + s) m"

definition map_sub_at :: "'k::linorder \<Rightarrow> size_t \<Rightarrow> ('k \<times> size_t) list \<Rightarrow> ('k \<times> size_t) list" where
  "map_sub_at k s m = map_assign k (map_at m k - s) m"

section \<open>Operations of the detector\<close>

text \<open>A freshly constructed detector: the default member initialisers.\<close>

definition getInstance :: MemoryLeakDetector where
  "getInstance =
     \<lparr>enabled_m = True, allocations_m = [], currentMemoryUsage_m = 0,
      peakMemoryUsage_m = 0, categoryStats_m = []\<rparr>"

definition setEnabled :: "MemoryLeakDetector \<Rightarrow> bool \<Rightarrow> MemoryLeakDetector" where
  "setEnabled d b = d\<lparr>enabled_m := b\<rparr>"

definition isEnabled :: "MemoryLeakDetector \<Rightarrow> bool" where
  "isEnabled d = enabled_m d"

definition trackAllocation ::
  "MemoryLeakDetector \<Rightarrow> time_point \<Rightarrow> ptr \<Rightarrow> size_t \<Rightarrow> string \<Rightarrow> 32 word \<Rightarrow> string \<Rightarrow> string
     \<Rightarrow> MemoryLeakDetector" where
  "trackAllocation d now p sz f l func cat =
     (if \<not> enabled_m d \<or> p = 0 then d
      else
        let info = make_AllocationInfo now p sz f l func cat;
            cur = currentMemoryUsage_m d + sz
        in d\<lparr>allocations_m := map_assign p info (allocations_m d),
              currentMemoryUsage_m := cur,
              peakMemoryUsage_m := (if cur > peakMemoryUsage_m d then cur else peakMemoryUsage_m d),
              categoryStats_m := map_add_at cat sz (categoryStats_m d)\<rparr>)"

definition untrackAllocation :: "MemoryLeakDetector \<Rightarrow> ptr \<Rightarrow> MemoryLeakDetector" where
  "untrackAllocation d p =
     (if \<not> enabled_m d \<or> p = 0 then d
      else
        case map_of (allocations_m d) p of
          None \<Rightarrow> d
        | Some info \<Rightarrow>
            d\<lparr>currentMemoryUsage_m := currentMemoryUsage_m d - size_a info,
              categoryStats_m := map_sub_at (category info) (size_a info) (categoryStats_m d),
              allocations_m := map_erase p (allocations_m d)\<rparr>)"

definition hasLeaks :: "MemoryLeakDetector \<Rightarrow> bool" where
  "hasLeaks d = (allocations_m d \<noteq> [])"

text \<open>\<open>allocations_.size()\<close>, returned as a \<open>size_t\<close>.\<close>

definition getLeakCount :: "MemoryLeakDetector \<Rightarrow> size_t" where
  "getLeakCount d = of_nat (length (allocations_m d))"

text \<open>The scan of \<open>getLeakedBytes\<close>: \<open>total += pair.second.size\<close> for every entry.\<close>

definition getLeakedBytes :: "MemoryLeakDetector \<Rightarrow> size_t" where
  "getLeakedBytes d = fold (\<lambda>pair total. total + size_a (snd pair)) (allocations_m d) 0"

definition getLeaks :: "MemoryLeakDetector \<Rightarrow> AllocationInfo list" where
  "getLeaks d = map snd (allocations_m d)"

text \<open>
  The grouping loop of \<open>getStats\<close>: one pass over the live entries that adds each size
  to the entry of its category and to the entry of its file.
\<close>

definition group_step ::
  "ptr \<times> AllocationInfo \<Rightarrow> (string \<times> size_t) list \<times> (string \<times> size_t) list
     \<Rightarrow> (string \<times> size_t) list \<times> (string \<times> size_t) list" where
  "group_step pair acc =
     (map_add_at (category (snd pair)) (size_a (snd pair)) (fst acc),
      map_add_at (file_a (snd pair)) (size_a (snd pair)) (snd acc))"

definition getStats :: "MemoryLeakDetector \<Rightarrow> time_point \<Rightarrow> LeakDetectionStats" where
  "getStats d now =
     (let groups = fold group_step (allocations_m d) ([], [])
      in \<lparr>totalLeaks = getLeakCount d,
          totalLeakedBytes = getLeakedBytes d,
          peakMemoryUsage = peakMemoryUsage_m d,
          currentMemoryUsage = currentMemoryUsage_m d,
          leaksByCategory = fst groups,
          leaksByFile = snd groups,
          detectionTime = now\<rparr>)"

definition clear :: "MemoryLeakDetector \<Rightarrow> MemoryLeakDetector" where
  "clear d = d\<lparr>allocations_m := [], currentMemoryUsage_m := 0, categoryStats_m := []\<rparr>"

definition resetStats :: "MemoryLeakDetector \<Rightarrow> MemoryLeakDetector" where
  "resetStats d = d\<lparr>peakMemoryUsage_m := currentMemoryUsage_m d\<rparr>"

section \<open>Sequences of calls\<close>

datatype call =
    Track time_point ptr size_t string "32 word" string string
  | Untrack ptr
  | Clear
  | ResetStats
  | SetEnabled bool

fun step :: "MemoryLeakDetector \<Rightarrow> call \<Rightarrow> MemoryLeakDetector" where
  "step d (Track now p sz f l func cat) = trackAllocation d now p sz f l func cat"
| "step d (Untrack p) = untrackAllocation d p"
| "step d Clear = clear d"
| "step d ResetStats = resetStats d"
| "step d (SetEnabled b) = setEnabled d b"

fun replay :: "MemoryLeakDetector \<Rightarrow> call list \<Rightarrow> MemoryLeakDetector" where
  "replay d [] = d"
| "replay d (c # cs) = replay (step d c) cs"

section \<open>Calls made from several threads\<close>

text \<open>
  No member function of the class acquires a lock and the class has no mutex member, so
  two calls made from different threads interleave. A call in progress is at one of the
  statements of its body that read or write the members; the local \<open>info\<close> of
  \<open>trackAllocation\<close> is built from the arguments and needs no step of its own.
\<close>

datatype track_point = T_guard | T_assign | T_add_usage | T_peak | T_add_category

datatype untrack_point = U_guard | U_find | U_sub_usage | U_sub_category | U_erase

datatype thread =
    InTrack track_point time_point ptr size_t string "32 word" string string
  | InUntrack untrack_point ptr
  | Returned

text \<open>
  One statement of a call. The iterator \<open>it\<close> of \<open>untrackAllocation\<close> is the entry of
  its key: it can be dereferenced and erased while that entry is in the map, and using
  it after another call erased the entry is undefined, which is \<open>None\<close>. Each
  statement is taken as one indivisible step, which is more than the language grants
  to accesses that are not synchronised.
\<close>

fun statement :: "MemoryLeakDetector \<Rightarrow> thread \<Rightarrow> (MemoryLeakDetector \<times> thread) option" where
  "statement d (InTrack T_guard now p sz f l func cat) =
     Some (d, if \<not> enabled_m d \<or> p = 0 then Returned else InTrack T_assign now p sz f l func cat)"
| "statement d (InTrack T_assign now p sz f l func cat) =
     Some (d\<lparr>allocations_m :=
               map_assign p (make_AllocationInfo now p sz f l func cat) (allocations_m d)\<rparr>,
           InTrack T_add_usage now p sz f l func cat)"
| "statement d (InTrack T_add_usage now p sz f l func cat) =
     Some (d\<lparr>currentMemoryUsage_m := currentMemoryUsage_m d + sz\<rparr>,
           InTrack T_peak now p sz f l func cat)"
| "statement d (InTrack T_peak now p sz f l func cat) =
     Some (d\<lparr>peakMemoryUsage_m :=
               (if currentMemoryUsage_m d > peakMemoryUsage_m d then currentMemoryUsage_m d
                else peakMemoryUsage_m d)\<rparr>,
           InTrack T_add_category now p sz f l func cat)"
| "statement d (InTrack T_add_category now p sz f l func cat) =
     Some (d\<lparr>categoryStats_m := map_add_at cat sz (categoryStats_m d)\<rparr>, Returned)"
| "statement d (InUntrack U_guard p) =
     Some (d, if \<not> enabled_m d \<or> p = 0 then Returned else InUntrack U_find p)"
| "statement d (InUntrack U_find p) =
     Some (d, if map_of (allocations_m d) p = None then Returned else InUntrack U_sub_usage p)"
| "statement d (InUntrack U_sub_usage p) =
     (case map_of (allocations_m d) p of
        None \<Rightarrow> None
      | Some info \<Rightarrow>
          Some (d\<lparr>currentMemoryUsage_m := currentMemoryUsage_m d - size_a info\<rparr>,
                InUntrack U_sub_category p))"
| "statement d (InUntrack U_sub_category p) =
     (case map_of (allocations_m d) p of
        None \<Rightarrow> None
      | Some info \<Rightarrow>
          Some (d\<lparr>categoryStats_m :=
                    map_sub_at (category info) (size_a info) (categoryStats_m d)\<rparr>,
                InUntrack U_erase p))"
| "statement d (InUntrack U_erase p) =
     (case map_of (allocations_m d) p of
        None \<Rightarrow> None
      | Some info \<Rightarrow> Some (d\<lparr>allocations_m := map_erase p (allocations_m d)\<rparr>, Returned))"
| "statement d Returned = Some (d, Returned)"

text \<open>
  A schedule names, step by step, the thread that executes its next statement; a thread
  that has returned does nothing.
\<close>

fun run_schedule ::
  "MemoryLeakDetector \<Rightarrow> thread list \<Rightarrow> nat list \<Rightarrow> (MemoryLeakDetector \<times> thread list) option" where
  "run_schedule d ts [] = Some (d, ts)"
| "run_schedule d ts (i # sched) =
     (if i < length ts then
        (case statement d (ts ! i) of
           None \<Rightarrow> None
         | Some (d', t') \<Rightarrow> run_schedule d' (ts[i := t']) sched)
      else None)"

section \<open>Notions the properties are stated with\<close>

text \<open>The sum of \<open>size\<close> over the live records, in \<open>size_t\<close> arithmetic and as a number.\<close>

definition live_bytes :: "(ptr \<times> AllocationInfo) list \<Rightarrow> size_t" where
  "live_bytes xs = sum_list (map (\<lambda>pair. size_a (snd pair)) xs)"

definition live_bytes_nat :: "(ptr \<times> AllocationInfo) list \<Rightarrow> nat" where
  "live_bytes_nat xs = sum_list (map (\<lambda>pair. unat (size_a (snd pair))) xs)"

text \<open>The addresses tracked and not yet untracked by a sequence of calls, starting from \<open>L\<close>.\<close>

fun live_addresses :: "ptr set \<Rightarrow> call list \<Rightarrow> ptr set" where
  "live_addresses L [] = L"
| "live_addresses L (Track now p sz f l func cat # cs) = live_addresses (insert p L) cs"
| "live_addresses L (Untrack p # cs) = live_addresses (L - {p}) cs"
| "live_addresses L (c # cs) = live_addresses L cs"

text \<open>
  A sequence of track and untrack calls only, each with a non-null address, that never
  tracks an address of \<open>L\<close> or one it has tracked and not untracked since.
\<close>

fun no_duplicate_live :: "ptr set \<Rightarrow> call list \<Rightarrow> bool" where
  "no_duplicate_live L [] = True"
| "no_duplicate_live L (Track now p sz f l func cat # cs) =
     (p \<noteq> 0 \<and> p \<notin> L \<and> no_duplicate_live (insert p L) cs)"
| "no_duplicate_live L (Untrack p # cs) = (p \<noteq> 0 \<and> no_duplicate_live (L - {p}) cs)"
| "no_duplicate_live L (c # cs) = False"

fun track_or_untrack :: "call \<Rightarrow> bool" where
  "track_or_untrack (Track now p sz f l func cat) = True"
| "track_or_untrack (Untrack p) = True"
| "track_or_untrack c = False"

text \<open>
  A call fits when the addition \<open>currentMemoryUsage_ += size\<close> it performs, if any, does
  not exceed the range of \<open>size_t\<close>; a sequence of calls does not wrap when every call
  fits the state it is made in.
\<close>

fun fits :: "MemoryLeakDetector \<Rightarrow> call \<Rightarrow> bool" where
  "fits d (Track now p sz f l func cat) =
     (\<not> enabled_m d \<or> p = 0 \<or> unat (currentMemoryUsage_m d) + unat sz < 2 ^ 64)"
| "fits d c = True"

fun no_wrap :: "MemoryLeakDetector \<Rightarrow> call list \<Rightarrow> bool" where
  "no_wrap d [] = True"
| "no_wrap d (c # cs) = (fits d c \<and> no_wrap (step d c) cs)"

text \<open>Grouping the live records by a key and summing their sizes.\<close>

definition group_sum ::
  "(AllocationInfo \<Rightarrow> string) \<Rightarrow> (ptr \<times> AllocationInfo) list \<Rightarrow> string \<Rightarrow> size_t" where
  "group_sum key xs k =
     sum_list (map (\<lambda>pair. size_a (snd pair)) (filter (\<lambda>pair. key (snd pair) = k) xs))"

text \<open>
  The state reached by such a sequence from a state whose live addresses are \<open>L\<close>: the
  detector is enabled, the map is well formed with exactly the keys \<open>L\<close>, none of them
  null, and the running counter is the sum over the live records.
\<close>

definition balanced :: "MemoryLeakDetector \<Rightarrow> ptr set \<Rightarrow> bool" where
  "balanced d L =
     (enabled_m d \<and> map_inv (allocations_m d) \<and> fst ` set (allocations_m d) = L \<and> 0 \<notin> L \<and>
      currentMemoryUsage_m d = live_bytes (allocations_m d))"

text \<open>
  The state kept by a sequence of calls that does not wrap: the counter is at least the
  sum of the live sizes taken as numbers, and the peak is at least the counter.
\<close>

definition peak_inv :: "MemoryLeakDetector \<Rightarrow> bool" where
  "peak_inv d =
     (live_bytes_nat (allocations_m d) \<le> unat (currentMemoryUsage_m d) \<and>
      currentMemoryUsage_m d \<le> peakMemoryUsage_m d)"

section \<open>Evaluating concrete runs\<close>

lemmas run_defs = getInstance_def trackAllocation_def untrackAllocation_def
  make_AllocationInfo_def map_add_at_def map_sub_at_def map_at_def Let_def

section \<open>Facts about the ordered map\<close>

lemma map_of_map_assign: "map_of (map_assign k v xs) = (map_of xs)(k \<mapsto> v)"
  by (induction xs) (auto simp: fun_eq_iff)

lemma keys_map_assign: "fst ` set (map_assign k v xs) = insert k (fst ` set xs)"
proof -
  have "dom (map_of (map_assign k v xs)) = insert k (dom (map_of xs))"
    by (simp add: map_of_map_assign)
  then show ?thesis by (simp add: dom_map_of_conv_image_fst)
qed

lemma map_inv_Cons: "map_inv ((a, b) # xs) = ((\<forall>k \<in> fst ` set xs. a < k) \<and> map_inv xs)"
  by (auto simp: map_inv_def)

lemma map_inv_map_assign: "map_inv xs \<Longrightarrow> map_inv (map_assign k v xs)"
proof (induction xs)
  case Nil
  then show ?case by (simp add: map_inv_def)
next
  case (Cons x xs)
  obtain a b where x: "x = (a, b)" by (cases x)
  from Cons show ?case unfolding x
    by (auto simp: map_inv_Cons keys_map_assign)
qed

lemma set_map_erase_subset: "set (map_erase k xs) \<subseteq> set xs"
  by (induction xs) (auto split: if_splits)

lemma map_inv_below: "map_inv ((a, b) # xs) \<Longrightarrow> k \<le> a \<Longrightarrow> map_of xs k = None"
  by (force simp: map_inv_Cons map_of_eq_None_iff)

lemma map_inv_map_erase: "map_inv xs \<Longrightarrow> map_inv (map_erase k xs)"
proof (induction xs)
  case Nil
  then show ?case by simp
next
  case (Cons x xs)
  obtain a b where x: "x = (a, b)" by (cases x)
  from Cons set_map_erase_subset [of k xs] show ?case unfolding x
    by (auto simp: map_inv_Cons)
qed

lemma map_inv_absent_head: "map_inv ((a, b) # xs) \<Longrightarrow> map_of xs a = None"
  by (force simp: map_inv_Cons map_of_eq_None_iff)

lemma map_of_map_erase: "map_inv xs \<Longrightarrow> map_of (map_erase k xs) = (map_of xs)(k := None)"
proof (induction xs)
  case Nil
  then show ?case by simp
next
  case (Cons x xs)
  obtain a b where x: "x = (a, b)" by (cases x)
  from Cons map_inv_absent_head [of a b xs] show ?case unfolding x
    by (auto simp: map_inv_Cons fun_eq_iff)
qed

lemma map_erase_absent: "map_of xs k = None \<Longrightarrow> map_erase k xs = xs"
  by (induction xs) (auto split: if_splits)

lemma map_inv_distinct: "map_inv xs \<Longrightarrow> distinct (map fst xs)"
  by (simp add: map_inv_def strict_sorted_iff)

lemma map_at_map_assign: "map_at (map_assign k v m) k' = (if k' = k then v else map_at m k')"
  by (simp add: map_at_def map_of_map_assign)

lemma map_at_map_add_at: "map_at (map_add_at k s m) k' = (if k' = k then map_at m k + s else map_at m k')"
  by (simp add: map_add_at_def map_at_map_assign)

lemma map_at_map_sub_at: "map_at (map_sub_at k s m) k' = (if k' = k then map_at m k - s else map_at m k')"
  by (simp add: map_sub_at_def map_at_map_assign)

lemma fold_bytes: "fold (\<lambda>pair total. total + size_a (snd pair)) xs t = t + live_bytes xs"
  by (induction xs arbitrary: t) (simp_all add: live_bytes_def add.assoc)

lemma getLeakedBytes_sum: "getLeakedBytes d = live_bytes (allocations_m d)"
  by (simp add: getLeakedBytes_def fold_bytes)

lemma live_bytes_assign_fresh:
  "map_of xs k = None \<Longrightarrow> live_bytes (map_assign k v xs) = live_bytes xs + size_a v"
  by (induction xs) (auto simp: live_bytes_def split: if_splits)

lemma live_bytes_assign_old:
  "map_inv xs \<Longrightarrow> map_of xs k = Some old \<Longrightarrow>
     live_bytes (map_assign k v xs) + size_a old = live_bytes xs + size_a v"
proof (induction xs)
  case Nil
  then show ?case by simp
next
  case (Cons x xs)
  obtain a b where x: "x = (a, b)" by (cases x)
  show ?case
  proof (cases "k = a")
    case True
    with Cons.prems show ?thesis by (simp add: x live_bytes_def)
  next
    case False
    from Cons.prems False have old: "map_of xs k = Some old" by (simp add: x)
    have "\<not> k < a"
    proof
      assume "k < a"
      with Cons.prems have "map_of xs k = None" by (simp add: x map_inv_below)
      with old show False by simp
    qed
    note this old
    moreover from Cons.prems have "map_inv xs" by (simp add: x map_inv_Cons)
    ultimately show ?thesis using Cons.IH False
      by (simp add: x live_bytes_def add.assoc)
  qed
qed

lemma live_bytes_erase:
  "map_of xs k = Some old \<Longrightarrow> live_bytes (map_erase k xs) + size_a old = live_bytes xs"
  by (induction xs) (auto simp: live_bytes_def split: if_splits)

lemma length_assign_fresh: "map_of xs k = None \<Longrightarrow> length (map_assign k v xs) = Suc (length xs)"
  by (induction xs) (auto split: if_splits)

lemma length_assign_old:
  "map_inv xs \<Longrightarrow> map_of xs k = Some old \<Longrightarrow> length (map_assign k v xs) = length xs"
proof (induction xs)
  case Nil
  then show ?case by simp
next
  case (Cons x xs)
  obtain a b where x: "x = (a, b)" by (cases x)
  show ?case
  proof (cases "k = a")
    case True
    then show ?thesis by (simp add: x)
  next
    case False
    from Cons.prems False have old: "map_of xs k = Some old" by (simp add: x)
    have "\<not> k < a"
    proof
      assume "k < a"
      with Cons.prems have "map_of xs k = None" by (simp add: x map_inv_below)
      with old show False by simp
    qed
    note this old
    moreover from Cons.prems have "map_inv xs" by (simp add: x map_inv_Cons)
    ultimately show ?thesis using Cons.IH False by (simp add: x)
  qed
qed

lemma length_erase: "map_of xs k = Some old \<Longrightarrow> Suc (length (map_erase k xs)) = length xs"
  by (induction xs) (auto split: if_splits)

lemma map_of_map_add_at: "map_of (map_add_at k s m) = (map_of m)(k \<mapsto> map_at m k + s)"
  by (simp add: map_add_at_def map_of_map_assign)

text \<open>Every operation keeps the live map well formed.\<close>

lemma map_inv_step: "map_inv (allocations_m d) \<Longrightarrow> map_inv (allocations_m (step d c))"
proof (cases c)
  case Clear
  then show ?thesis by (simp add: clear_def map_inv_def)
qed (simp_all add: trackAllocation_def untrackAllocation_def resetStats_def
    setEnabled_def Let_def map_inv_map_assign map_inv_map_erase split: option.splits)

lemma map_inv_replay: "map_inv (allocations_m d) \<Longrightarrow> map_inv (allocations_m (replay d cs))"
  by (induction cs arbitrary: d) (simp_all add: map_inv_step)

text \<open>So the live map of every state reached from a fresh detector is well formed.\<close>

lemma map_inv_reachable: "map_inv (allocations_m (replay getInstance cs))"
  by (rule map_inv_replay) (simp add: getInstance_def map_inv_def)

section \<open>The balance law\<close>

lemma unat_length_keys:
  assumes "map_inv (xs :: (ptr \<times> 'a) list)" and "0 \<notin> fst ` set xs"
  shows "unat (of_nat (length xs) :: size_t) = card (fst ` set xs)"
proof -
  let ?K = "fst ` set xs"
  from assms(1) have "distinct (map fst xs)" by (rule map_inv_distinct)
  then have len: "length xs = card ?K"
    using distinct_card [of "map fst xs"] by simp
  have "?K \<subseteq> UNIV - {0}" using assms(2) by auto
  then have "card ?K \<le> card (UNIV - {0 :: ptr})" by (intro card_mono) simp_all
  also have "\<dots> = 2 ^ 64 - 1" by (simp add: card_Diff_singleton card_word)
  finally have "length xs < 2 ^ 64" using len by simp
  then show ?thesis using len by (simp add: unat_of_nat)
qed

lemma keys_map_erase: "map_inv xs \<Longrightarrow> fst ` set (map_erase k xs) = fst ` set xs - {k}"
proof -
  assume inv: "map_inv xs"
  have "dom (map_of (map_erase k xs)) = dom (map_of xs) - {k}"
    by (simp add: map_of_map_erase [OF inv])
  then show ?thesis by (simp add: dom_map_of_conv_image_fst)
qed

lemma balanced_track:
  assumes "balanced d L" and "p \<noteq> 0" and "p \<notin> L"
  shows "balanced (trackAllocation d now p sz f l func cat) (insert p L)"
proof -
  from assms have fresh: "map_of (allocations_m d) p = None"
    by (simp add: balanced_def map_of_eq_None_iff)
  with assms show ?thesis
    by (simp add: balanced_def trackAllocation_def Let_def map_inv_map_assign keys_map_assign
        live_bytes_assign_fresh make_AllocationInfo_def)
qed

lemma balanced_untrack:
  assumes "balanced d L" and "p \<noteq> 0"
  shows "balanced (untrackAllocation d p) (L - {p})"
proof (cases "map_of (allocations_m d) p")
  case None
  with assms have "p \<notin> L" by (simp add: balanced_def map_of_eq_None_iff)
  then have "L - {p} = L" by simp
  moreover from None have "untrackAllocation d p = d" by (simp add: untrackAllocation_def)
  ultimately show ?thesis using assms(1) by simp
next
  case (Some info)
  let ?xs = "allocations_m d"
  from assms have en: "enabled_m d" and inv: "map_inv ?xs" and keys: "fst ` set ?xs = L"
    and nz: "0 \<notin> L" and cur: "currentMemoryUsage_m d = live_bytes ?xs"
    by (simp_all add: balanced_def)
  have u: "untrackAllocation d p =
      d\<lparr>currentMemoryUsage_m := currentMemoryUsage_m d - size_a info,
        categoryStats_m := map_sub_at (category info) (size_a info) (categoryStats_m d),
        allocations_m := map_erase p ?xs\<rparr>"
    using en assms(2) Some by (simp add: untrackAllocation_def)
  have b: "live_bytes (map_erase p ?xs) = live_bytes ?xs - size_a info"
    using live_bytes_erase [OF Some] by (simp add: eq_diff_eq)
  show ?thesis
    unfolding balanced_def u
    by (simp add: en map_inv_map_erase [OF inv] keys_map_erase [OF inv] keys nz b cur)
qed

lemma balanced_replay:
  "balanced d L \<Longrightarrow> no_duplicate_live L cs \<Longrightarrow> balanced (replay d cs) (live_addresses L cs)"
proof (induction L cs arbitrary: d rule: no_duplicate_live.induct)
  case (1 L)
  then show ?case by simp
next
  case (2 L now p sz f l func cat cs)
  then show ?case by (simp add: balanced_track)
next
  case (3 L p cs)
  then show ?case by (simp add: balanced_untrack)
qed simp_all

text \<open>
  C1. Replaying, on a fresh detector, any sequence of track and untrack calls with
  non-null addresses in which no address is tracked while it is still live leaves
  \<open>currentMemoryUsage_\<close> equal to \<open>getLeakedBytes()\<close>, the sum of \<open>size\<close> over the live
  records, and \<open>getLeakCount()\<close> equal to the number of addresses tracked and not yet
  untracked.
\<close>

theorem balance_law:
  assumes "no_duplicate_live {} cs"
  shows "currentMemoryUsage_m (replay getInstance cs) = getLeakedBytes (replay getInstance cs) \<and>
         getLeakedBytes (replay getInstance cs) = live_bytes (allocations_m (replay getInstance cs)) \<and>
         unat (getLeakCount (replay getInstance cs)) = card (live_addresses {} cs)"
proof -
  have "balanced getInstance {}"
    by (simp add: balanced_def getInstance_def map_inv_def live_bytes_def)
  from balanced_replay [OF this assms]
  have b: "balanced (replay getInstance cs) (live_addresses {} cs)" .
  let ?d = "replay getInstance cs"
  from b have inv: "map_inv (allocations_m ?d)" and nz: "0 \<notin> fst ` set (allocations_m ?d)"
    and keys: "fst ` set (allocations_m ?d) = live_addresses {} cs"
    and cur: "currentMemoryUsage_m ?d = live_bytes (allocations_m ?d)"
    by (simp_all add: balanced_def)
  have "unat (getLeakCount ?d) = card (live_addresses {} cs)"
    unfolding getLeakCount_def using unat_length_keys [OF inv nz] keys by simp
  with cur show ?thesis by (simp add: getLeakedBytes_sum)
qed

theorem balance_law_witness:
  "no_duplicate_live {}
     [Track 0 1 100 ''a.cpp'' 10 ''f'' ''a'', Track 1 2 200 ''b.cpp'' 20 ''g'' ''b'', Untrack 1,
      Track 2 1 50 ''a.cpp'' 11 ''f'' ''a''] \<and>
   currentMemoryUsage_m (replay getInstance
     [Track 0 1 100 ''a.cpp'' 10 ''f'' ''a'', Track 1 2 200 ''b.cpp'' 20 ''g'' ''b'', Untrack 1,
      Track 2 1 50 ''a.cpp'' 11 ''f'' ''a'']) = 250 \<and>
   getLeakedBytes (replay getInstance
     [Track 0 1 100 ''a.cpp'' 10 ''f'' ''a'', Track 1 2 200 ''b.cpp'' 20 ''g'' ''b'', Untrack 1,
      Track 2 1 50 ''a.cpp'' 11 ''f'' ''a'']) = 250 \<and>
   unat (getLeakCount (replay getInstance
     [Track 0 1 100 ''a.cpp'' 10 ''f'' ''a'', Track 1 2 200 ''b.cpp'' 20 ''g'' ''b'', Untrack 1,
      Track 2 1 50 ''a.cpp'' 11 ''f'' ''a''])) = 2"
proof -
  let ?cs = "[Track 0 1 100 ''a.cpp'' 10 ''f'' ''a'', Track 1 2 200 ''b.cpp'' 20 ''g'' ''b'', Untrack 1,
      Track 2 1 50 ''a.cpp'' 11 ''f'' ''a'']"
  have h: "no_duplicate_live {} ?cs" by simp
  have c: "currentMemoryUsage_m (replay getInstance ?cs) = 250"
    by (simp add: getInstance_def trackAllocation_def untrackAllocation_def
        make_AllocationInfo_def map_add_at_def map_sub_at_def map_at_def Let_def)
  have k: "card (live_addresses {} ?cs) = 2" by (simp add: card_insert_if)
  note law = balance_law [OF h]
  from law have "getLeakedBytes (replay getInstance ?cs) = 250" using c by simp
  moreover from law have "unat (getLeakCount (replay getInstance ?cs)) = 2" using k by simp
  ultimately show ?thesis using h c by simp
qed

section \<open>Tracking an address that is still live\<close>

text \<open>
  C2. When the detector is enabled and the non-null address \<open>p\<close> is live with an old
  record, tracking \<open>p\<close> again replaces the record by one stamped with the time of this
  call (the map does not grow), adds the new size to \<open>currentMemoryUsage_\<close> and to the
  total of the new category and leaves every other category total as it is. Nothing is
  subtracted for the old record: the excess of the counter over the sum of the live
  sizes grows by exactly the old size.
\<close>

theorem duplicate_track_double_counts:
  assumes "enabled_m d" and "p \<noteq> 0" and "map_inv (allocations_m d)"
    and "map_of (allocations_m d) p = Some old"
  shows "map_of (allocations_m (trackAllocation d now p sz f l func cat)) p =
           Some (make_AllocationInfo now p sz f l func cat) \<and>
         timestamp (make_AllocationInfo now p sz f l func cat) = now \<and>
         length (allocations_m (trackAllocation d now p sz f l func cat)) =
           length (allocations_m d) \<and>
         currentMemoryUsage_m (trackAllocation d now p sz f l func cat) =
           currentMemoryUsage_m d + sz \<and>
         map_at (categoryStats_m (trackAllocation d now p sz f l func cat)) cat =
           map_at (categoryStats_m d) cat + sz \<and>
         (\<forall>c. c \<noteq> cat \<longrightarrow>
            map_at (categoryStats_m (trackAllocation d now p sz f l func cat)) c =
              map_at (categoryStats_m d) c) \<and>
         currentMemoryUsage_m (trackAllocation d now p sz f l func cat) -
           getLeakedBytes (trackAllocation d now p sz f l func cat) =
           currentMemoryUsage_m d - getLeakedBytes d + size_a old"
proof -
  let ?info = "make_AllocationInfo now p sz f l func cat"
  let ?xs = "allocations_m d"
  let ?d' = "trackAllocation d now p sz f l func cat"
  have t: "?d' =
      d\<lparr>allocations_m := map_assign p ?info ?xs,
        currentMemoryUsage_m := currentMemoryUsage_m d + sz,
        peakMemoryUsage_m :=
          (if currentMemoryUsage_m d + sz > peakMemoryUsage_m d then currentMemoryUsage_m d + sz
           else peakMemoryUsage_m d),
        categoryStats_m := map_add_at cat sz (categoryStats_m d)\<rparr>"
    using assms(1,2) by (simp add: trackAllocation_def Let_def)
  have sz: "size_a ?info = sz" by (simp add: make_AllocationInfo_def)
  from live_bytes_assign_old [OF assms(3,4), of ?info]
  have "live_bytes (map_assign p ?info ?xs) = live_bytes ?xs + sz - size_a old"
    by (simp add: sz eq_diff_eq)
  then have drift: "currentMemoryUsage_m ?d' - getLeakedBytes ?d' =
      currentMemoryUsage_m d - getLeakedBytes d + size_a old"
    by (simp add: t getLeakedBytes_sum)
  have "map_of (allocations_m ?d') p = Some ?info" by (simp add: t map_of_map_assign)
  moreover have "timestamp ?info = now" by (simp add: make_AllocationInfo_def)
  moreover have "length (allocations_m ?d') = length ?xs"
    by (simp add: t length_assign_old [OF assms(3,4)])
  moreover have "currentMemoryUsage_m ?d' = currentMemoryUsage_m d + sz" by (simp add: t)
  moreover have "map_at (categoryStats_m ?d') cat = map_at (categoryStats_m d) cat + sz"
    by (simp add: t map_at_map_add_at)
  moreover have "\<forall>c. c \<noteq> cat \<longrightarrow> map_at (categoryStats_m ?d') c = map_at (categoryStats_m d) c"
    by (simp add: t map_at_map_add_at)
  ultimately show ?thesis using drift by blast
qed

theorem duplicate_track_double_counts_witness:
  "enabled_m (replay getInstance [Track 0 1 100 ''a.cpp'' 10 ''f'' ''a'']) \<and>
   map_inv (allocations_m (replay getInstance [Track 0 1 100 ''a.cpp'' 10 ''f'' ''a''])) \<and>
   map_of (allocations_m (replay getInstance [Track 0 1 100 ''a.cpp'' 10 ''f'' ''a''])) 1 =
     Some (make_AllocationInfo 0 1 100 ''a.cpp'' 10 ''f'' ''a'') \<and>
   currentMemoryUsage_m
     (trackAllocation (replay getInstance [Track 0 1 100 ''a.cpp'' 10 ''f'' ''a''])
        7 1 50 ''b.cpp'' 20 ''g'' ''b'') -
   getLeakedBytes
     (trackAllocation (replay getInstance [Track 0 1 100 ''a.cpp'' 10 ''f'' ''a''])
        7 1 50 ''b.cpp'' 20 ''g'' ''b'') = 100 \<and>
   currentMemoryUsage_m
     (trackAllocation (replay getInstance [Track 0 1 100 ''a.cpp'' 10 ''f'' ''a''])
        7 1 50 ''b.cpp'' 20 ''g'' ''b'') = 150"
proof -
  let ?d = "replay getInstance [Track 0 1 100 ''a.cpp'' 10 ''f'' ''a'']"
  let ?old = "make_AllocationInfo 0 1 100 ''a.cpp'' 10 ''f'' ''a''"
  have d: "?d = \<lparr>enabled_m = True, allocations_m = [(1, ?old)],
      currentMemoryUsage_m = 100, peakMemoryUsage_m = 100, categoryStats_m = [(''a'', 100)]\<rparr>"
    by (simp add: getInstance_def trackAllocation_def map_add_at_def map_at_def Let_def)
  have h1: "enabled_m ?d" and h2: "(1::ptr) \<noteq> 0" and h3: "map_inv (allocations_m ?d)"
    and h4: "map_of (allocations_m ?d) 1 = Some ?old"
    unfolding d by (simp_all add: map_inv_def)
  have old: "size_a ?old = 100" by (simp add: make_AllocationInfo_def)
  have c: "currentMemoryUsage_m ?d = 100" and g: "getLeakedBytes ?d = 100"
    unfolding d by (simp_all add: getLeakedBytes_def old)
  let ?d' = "trackAllocation ?d 7 1 50 ''b.cpp'' 20 ''g'' ''b''"
  from duplicate_track_double_counts [OF h1 h2 h3 h4, of 7 50 "''b.cpp''" 20 "''g''" "''b''"]
  have "currentMemoryUsage_m ?d' - getLeakedBytes ?d' =
        currentMemoryUsage_m ?d - getLeakedBytes ?d + size_a ?old"
    and "currentMemoryUsage_m ?d' = currentMemoryUsage_m ?d + 50"
    by blast+
  then have "currentMemoryUsage_m ?d' - getLeakedBytes ?d' = 100"
    and "currentMemoryUsage_m ?d' = 150"
    unfolding c g old by simp_all
  with h1 h3 h4 show ?thesis by blast
qed

section \<open>The peak\<close>

lemma live_bytes_nat_assign:
  "live_bytes_nat (map_assign k v xs) \<le> live_bytes_nat xs + unat (size_a v)"
  by (induction xs) (auto simp: live_bytes_nat_def)

lemma live_bytes_nat_erase:
  "map_of xs k = Some old \<Longrightarrow> live_bytes_nat (map_erase k xs) + unat (size_a old) = live_bytes_nat xs"
  by (induction xs) (auto simp: live_bytes_nat_def split: if_splits)

lemma peak_inv_track:
  assumes "peak_inv d" and "fits d (Track now p sz f l func cat)"
  shows "peak_inv (trackAllocation d now p sz f l func cat)"
proof (cases "\<not> enabled_m d \<or> p = 0")
  case True
  with assms(1) show ?thesis by (simp add: trackAllocation_def)
next
  case False
  let ?info = "make_AllocationInfo now p sz f l func cat"
  let ?cur = "currentMemoryUsage_m d + sz"
  from False assms(2) have "unat (currentMemoryUsage_m d) + unat sz < 2 ^ 64" by simp
  then have sum: "unat ?cur = unat (currentMemoryUsage_m d) + unat sz"
    using unat_add_lem [of "currentMemoryUsage_m d" sz] by simp
  have "live_bytes_nat (map_assign p ?info (allocations_m d)) \<le>
      live_bytes_nat (allocations_m d) + unat sz"
    using live_bytes_nat_assign [of p ?info "allocations_m d"]
    by (simp add: make_AllocationInfo_def)
  with assms(1) sum have a: "live_bytes_nat (map_assign p ?info (allocations_m d)) \<le> unat ?cur"
    by (simp add: peak_inv_def)
  have b: "?cur \<le> (if ?cur > peakMemoryUsage_m d then ?cur else peakMemoryUsage_m d)"
    by (simp add: not_less)
  from False a b show ?thesis by (simp add: peak_inv_def trackAllocation_def Let_def)
qed

lemma peak_inv_untrack:
  assumes "peak_inv d"
  shows "peak_inv (untrackAllocation d p)"
proof (cases "\<not> enabled_m d \<or> p = 0")
  case True
  with assms show ?thesis by (simp add: untrackAllocation_def)
next
  case False
  show ?thesis
  proof (cases "map_of (allocations_m d) p")
    case None
    with assms show ?thesis by (simp add: untrackAllocation_def)
  next
    case (Some info)
    let ?cur = "currentMemoryUsage_m d"
    from assms have lb: "live_bytes_nat (allocations_m d) \<le> unat ?cur"
      and pk: "?cur \<le> peakMemoryUsage_m d" by (simp_all add: peak_inv_def)
    note er = live_bytes_nat_erase [OF Some]
    with lb have le: "unat (size_a info) \<le> unat ?cur" by simp
    then have "size_a info \<le> ?cur" by (simp add: word_le_nat_alt)
    then have sub: "unat (?cur - size_a info) = unat ?cur - unat (size_a info)"
      by (rule unat_sub)
    from er lb have a: "live_bytes_nat (map_erase p (allocations_m d)) \<le> unat (?cur - size_a info)"
      unfolding sub by simp
    from sub have "unat (?cur - size_a info) \<le> unat ?cur" by simp
    then have "?cur - size_a info \<le> ?cur" by (simp add: word_le_nat_alt)
    with pk have b: "?cur - size_a info \<le> peakMemoryUsage_m d" by simp
    from False Some a b show ?thesis by (simp add: peak_inv_def untrackAllocation_def)
  qed
qed

lemma peak_inv_step: "peak_inv d \<Longrightarrow> fits d c \<Longrightarrow> peak_inv (step d c)"
proof (cases c)
  case (Track now p sz f l func cat)
  assume "peak_inv d" and "fits d c"
  with Track show ?thesis by (simp add: peak_inv_track del: fits.simps)
next
  case (Untrack p)
  assume "peak_inv d"
  with Untrack show ?thesis by (simp add: peak_inv_untrack)
next
  case Clear
  then show ?thesis by (simp add: peak_inv_def clear_def live_bytes_nat_def)
next
  case ResetStats
  assume "peak_inv d"
  with ResetStats show ?thesis by (simp add: peak_inv_def resetStats_def)
next
  case (SetEnabled b)
  assume "peak_inv d"
  with SetEnabled show ?thesis by (simp add: peak_inv_def setEnabled_def)
qed

lemma peak_inv_replay: "peak_inv d \<Longrightarrow> no_wrap d cs \<Longrightarrow> peak_inv (replay d cs)"
  by (induction cs arbitrary: d) (simp_all add: peak_inv_step)

lemma peak_step_mono: "c \<noteq> ResetStats \<Longrightarrow> peakMemoryUsage_m d \<le> peakMemoryUsage_m (step d c)"
  by (cases c)
    (simp_all add: trackAllocation_def untrackAllocation_def clear_def setEnabled_def Let_def
      less_imp_le split: option.splits)

text \<open>
  C3, as the code has it. No call other than \<open>resetStats\<close> lowers \<open>peakMemoryUsage_\<close>,
  in any state. After any sequence of calls on a fresh detector in which no addition
  \<open>currentMemoryUsage_ += size\<close> exceeds the range of \<open>size_t\<close>, the peak is at least
  the current usage.
\<close>

theorem peak_monotone_and_bounds:
  "(\<forall>d c. c \<noteq> ResetStats \<longrightarrow> peakMemoryUsage_m d \<le> peakMemoryUsage_m (step d c)) \<and>
   (no_wrap getInstance cs \<longrightarrow>
      currentMemoryUsage_m (replay getInstance cs) \<le> peakMemoryUsage_m (replay getInstance cs))"
proof -
  have "peak_inv getInstance" by (simp add: peak_inv_def getInstance_def live_bytes_nat_def)
  then have "no_wrap getInstance cs \<Longrightarrow> peak_inv (replay getInstance cs)"
    by (rule peak_inv_replay)
  then show ?thesis using peak_step_mono by (simp add: peak_inv_def)
qed

theorem peak_monotone_and_bounds_witness:
  "no_wrap getInstance
     [Track 0 1 4096 ''a.cpp'' 10 ''f'' ''general'', Untrack 1,
      Track 1 2 1024 ''a.cpp'' 11 ''f'' ''general''] \<and>
   currentMemoryUsage_m (replay getInstance
     [Track 0 1 4096 ''a.cpp'' 10 ''f'' ''general'', Untrack 1,
      Track 1 2 1024 ''a.cpp'' 11 ''f'' ''general''])
   \<le> peakMemoryUsage_m (replay getInstance
     [Track 0 1 4096 ''a.cpp'' 10 ''f'' ''general'', Untrack 1,
      Track 1 2 1024 ''a.cpp'' 11 ''f'' ''general'']) \<and>
   Clear \<noteq> ResetStats \<and>
   peakMemoryUsage_m (replay getInstance
     [Track 0 1 4096 ''a.cpp'' 10 ''f'' ''general'', Untrack 1,
      Track 1 2 1024 ''a.cpp'' 11 ''f'' ''general''])
   \<le> peakMemoryUsage_m (step (replay getInstance
     [Track 0 1 4096 ''a.cpp'' 10 ''f'' ''general'', Untrack 1,
      Track 1 2 1024 ''a.cpp'' 11 ''f'' ''general'']) Clear)"
proof -
  let ?cs = "[Track 0 1 4096 ''a.cpp'' 10 ''f'' ''general'', Untrack 1,
      Track 1 2 1024 ''a.cpp'' 11 ''f'' ''general'']"
  have nw: "no_wrap getInstance ?cs" by (simp add: run_defs)
  have ne: "Clear \<noteq> ResetStats" by simp
  note t = peak_monotone_and_bounds [of ?cs]
  from t nw have "currentMemoryUsage_m (replay getInstance ?cs)
      \<le> peakMemoryUsage_m (replay getInstance ?cs)" by blast
  moreover from t ne have "peakMemoryUsage_m (replay getInstance ?cs)
      \<le> peakMemoryUsage_m (step (replay getInstance ?cs) Clear)" by blast
  ultimately show ?thesis using nw ne by blast
qed

text \<open>
  C3 as stated fails where the counter wraps: after tracking \<open>2 ^ 63\<close> bytes at
  address 1 and \<open>2 ^ 63 + 5\<close> bytes at address 2 the counter has wrapped to 5 and the peak
  is \<open>2 ^ 63\<close>; untracking address 1 then leaves the counter at \<open>2 ^ 63 + 5\<close>, above
  the peak.
\<close>

theorem peak_bound_counterexample:
  "\<not> currentMemoryUsage_m (replay getInstance
        [Track 0 1 9223372036854775808 ''a.cpp'' 10 ''f'' ''a'',
         Track 1 2 9223372036854775813 ''b.cpp'' 20 ''g'' ''b'',
         Untrack 1])
      \<le> peakMemoryUsage_m (replay getInstance
        [Track 0 1 9223372036854775808 ''a.cpp'' 10 ''f'' ''a'',
         Track 1 2 9223372036854775813 ''b.cpp'' 20 ''g'' ''b'',
         Untrack 1])"
  by (simp add: getInstance_def trackAllocation_def untrackAllocation_def
      make_AllocationInfo_def map_add_at_def map_sub_at_def map_at_def Let_def)

section \<open>Untracking an address that is not live\<close>

lemma untrack_absent: "map_of (allocations_m d) p = None \<Longrightarrow> untrackAllocation d p = d"
  by (simp add: untrackAllocation_def)

lemma untrack_removes:
  "map_inv (allocations_m d) \<Longrightarrow> map_of (allocations_m (untrackAllocation d p)) p = None \<or> untrackAllocation d p = d"
  by (auto simp: untrackAllocation_def map_of_map_erase split: option.splits)

text \<open>
  C4. Untracking an address that has no live record returns the detector unchanged,
  whatever the state: the live map, both counters and every category total are as
  before, and there is no failing path. On a well-formed live map, untracking an
  address twice in succession leaves the state the first call left.
\<close>

theorem untrack_absent_noop:
  "(map_of (allocations_m d) p = None \<longrightarrow> untrackAllocation d p = d) \<and>
   (map_inv (allocations_m d) \<longrightarrow>
      untrackAllocation (untrackAllocation d p) p = untrackAllocation d p)"
proof (intro conjI impI)
  assume "map_of (allocations_m d) p = None"
  then show "untrackAllocation d p = d" by (rule untrack_absent)
next
  assume inv: "map_inv (allocations_m d)"
  from untrack_removes [OF inv, of p]
  show "untrackAllocation (untrackAllocation d p) p = untrackAllocation d p"
  proof
    assume "map_of (allocations_m (untrackAllocation d p)) p = None"
    then show ?thesis by (rule untrack_absent)
  next
    assume "untrackAllocation d p = d"
    then show ?thesis by simp
  qed
qed

theorem untrack_absent_noop_witness:
  "map_of (allocations_m (replay getInstance [Track 0 1 1024 ''a.cpp'' 10 ''f'' ''general''])) 9 = None \<and>
   map_inv (allocations_m (replay getInstance [Track 0 1 1024 ''a.cpp'' 10 ''f'' ''general''])) \<and>
   untrackAllocation (replay getInstance [Track 0 1 1024 ''a.cpp'' 10 ''f'' ''general'']) 9 =
     replay getInstance [Track 0 1 1024 ''a.cpp'' 10 ''f'' ''general''] \<and>
   untrackAllocation
     (untrackAllocation (replay getInstance [Track 0 1 1024 ''a.cpp'' 10 ''f'' ''general'']) 1) 1 =
     untrackAllocation (replay getInstance [Track 0 1 1024 ''a.cpp'' 10 ''f'' ''general'']) 1"
proof -
  let ?d = "replay getInstance [Track 0 1 1024 ''a.cpp'' 10 ''f'' ''general'']"
  have a: "map_of (allocations_m ?d) 9 = None" by (simp add: run_defs)
  have i: "map_inv (allocations_m ?d)" by (simp add: run_defs map_inv_def)
  from untrack_absent_noop [of ?d 9] a have "untrackAllocation ?d 9 = ?d" by blast
  moreover from untrack_absent_noop [of ?d 1] i
  have "untrackAllocation (untrackAllocation ?d 1) 1 = untrackAllocation ?d 1" by blast
  ultimately show ?thesis using a i by blast
qed

section \<open>The disabled detector\<close>

lemma disabled_step: "\<not> enabled_m d \<Longrightarrow> track_or_untrack c \<Longrightarrow> step d c = d"
  by (cases c) (simp_all add: trackAllocation_def untrackAllocation_def)

text \<open>
  C5. While \<open>enabled_\<close> is false, any sequence of track and untrack calls returns the
  detector exactly as it was: the live map, the leak count, the current and peak usage
  and the category totals are all unchanged.
\<close>

theorem disabled_noop:
  "\<not> enabled_m d \<Longrightarrow> list_all track_or_untrack cs \<Longrightarrow> replay d cs = d"
  by (induction cs) (simp_all add: disabled_step)

theorem disabled_noop_witness:
  "\<not> enabled_m (setEnabled getInstance False) \<and>
   list_all track_or_untrack [Track 0 1 100 ''a.cpp'' 10 ''f'' ''a'', Untrack 1, Untrack 2] \<and>
   replay (setEnabled getInstance False)
     [Track 0 1 100 ''a.cpp'' 10 ''f'' ''a'', Untrack 1, Untrack 2] = setEnabled getInstance False"
proof -
  have a: "\<not> enabled_m (setEnabled getInstance False)" by (simp add: setEnabled_def)
  have b: "list_all track_or_untrack [Track 0 1 100 ''a.cpp'' 10 ''f'' ''a'', Untrack 1, Untrack 2]"
    by simp
  from disabled_noop [OF a b] a b show ?thesis by simp
qed

section \<open>The statistics snapshot\<close>

lemma group_sum_Nil: "group_sum key [] k = 0"
  by (simp add: group_sum_def)

lemma group_sum_Cons:
  "group_sum key (x # xs) k =
     (if key (snd x) = k then size_a (snd x) + group_sum key xs k else group_sum key xs k)"
  by (simp add: group_sum_def)

lemma group_sum_absent: "k \<notin> (\<lambda>pair. key (snd pair)) ` set xs \<Longrightarrow> group_sum key xs k = 0"
  by (induction xs) (auto simp: group_sum_Nil group_sum_Cons)

lemma fold_group_step_fst:
  "map_of (fst (fold group_step xs (A, B))) c =
     (if c \<in> (\<lambda>pair. category (snd pair)) ` set xs
      then Some (map_at A c + group_sum category xs c) else map_of A c)"
proof (induction xs arbitrary: A B)
  case Nil
  then show ?case by simp
next
  case (Cons x xs)
  let ?A = "map_add_at (category (snd x)) (size_a (snd x)) A"
  let ?B = "map_add_at (file_a (snd x)) (size_a (snd x)) B"
  have "fold group_step (x # xs) (A, B) = fold group_step xs (?A, ?B)"
    by (simp add: group_step_def)
  then have "map_of (fst (fold group_step (x # xs) (A, B))) c =
      (if c \<in> (\<lambda>pair. category (snd pair)) ` set xs
       then Some (map_at ?A c + group_sum category xs c) else map_of ?A c)"
    by (simp only: Cons.IH)
  then show ?case
    by (auto simp: map_at_map_add_at map_of_map_add_at group_sum_Cons group_sum_absent
        add.assoc)
qed

lemma fold_group_step_snd:
  "map_of (snd (fold group_step xs (A, B))) c =
     (if c \<in> (\<lambda>pair. file_a (snd pair)) ` set xs
      then Some (map_at B c + group_sum file_a xs c) else map_of B c)"
proof (induction xs arbitrary: A B)
  case Nil
  then show ?case by simp
next
  case (Cons x xs)
  let ?A = "map_add_at (category (snd x)) (size_a (snd x)) A"
  let ?B = "map_add_at (file_a (snd x)) (size_a (snd x)) B"
  have "fold group_step (x # xs) (A, B) = fold group_step xs (?A, ?B)"
    by (simp add: group_step_def)
  then have "map_of (snd (fold group_step (x # xs) (A, B))) c =
      (if c \<in> (\<lambda>pair. file_a (snd pair)) ` set xs
       then Some (map_at ?B c + group_sum file_a xs c) else map_of ?B c)"
    by (simp only: Cons.IH)
  then show ?case
    by (auto simp: map_at_map_add_at map_of_map_add_at group_sum_Cons group_sum_absent
        add.assoc)
qed

text \<open>
  C6. In the snapshot of \<open>getStats\<close>, \<open>leaksByCategory\<close> has an entry exactly for the
  categories of the live records, holding the sum of the sizes of the live records of
  that category, and \<open>leaksByFile\<close> likewise for their files. The snapshot does not
  read \<open>categoryStats_\<close>: replacing that map by any other leaves the snapshot the same.
\<close>

theorem getStats_groups_live_set:
  "map_of (leaksByCategory (getStats d now)) c =
     (if c \<in> (\<lambda>pair. category (snd pair)) ` set (allocations_m d)
      then Some (group_sum category (allocations_m d) c) else None) \<and>
   map_of (leaksByFile (getStats d now)) f =
     (if f \<in> (\<lambda>pair. file_a (snd pair)) ` set (allocations_m d)
      then Some (group_sum file_a (allocations_m d) f) else None) \<and>
   getStats (d\<lparr>categoryStats_m := m\<rparr>) now = getStats d now"
proof -
  have "map_at [] c = 0" and "map_at [] f = 0" by (simp_all add: map_at_def)
  then show ?thesis
    by (simp add: getStats_def Let_def fold_group_step_fst fold_group_step_snd
        getLeakCount_def getLeakedBytes_def)
qed

theorem getStats_groups_live_set_witness:
  "map_at (categoryStats_m (replay getInstance
      [Track 0 1 100 ''a.cpp'' 10 ''f'' ''a'', Track 1 1 50 ''b.cpp'' 20 ''g'' ''b'',
       Track 2 2 7 ''b.cpp'' 21 ''g'' ''b''])) ''a'' = 100 \<and>
   map_of (leaksByCategory (getStats (replay getInstance
      [Track 0 1 100 ''a.cpp'' 10 ''f'' ''a'', Track 1 1 50 ''b.cpp'' 20 ''g'' ''b'',
       Track 2 2 7 ''b.cpp'' 21 ''g'' ''b'']) 9)) ''a'' = None \<and>
   map_of (leaksByCategory (getStats (replay getInstance
      [Track 0 1 100 ''a.cpp'' 10 ''f'' ''a'', Track 1 1 50 ''b.cpp'' 20 ''g'' ''b'',
       Track 2 2 7 ''b.cpp'' 21 ''g'' ''b'']) 9)) ''b'' = Some 57 \<and>
   map_of (leaksByFile (getStats (replay getInstance
      [Track 0 1 100 ''a.cpp'' 10 ''f'' ''a'', Track 1 1 50 ''b.cpp'' 20 ''g'' ''b'',
       Track 2 2 7 ''b.cpp'' 21 ''g'' ''b'']) 9)) ''b.cpp'' = Some 57"
proof -
  let ?d = "replay getInstance
      [Track 0 1 100 ''a.cpp'' 10 ''f'' ''a'', Track 1 1 50 ''b.cpp'' 20 ''g'' ''b'',
       Track 2 2 7 ''b.cpp'' 21 ''g'' ''b'']"
  have al: "allocations_m ?d =
      [(1, make_AllocationInfo 1 1 50 ''b.cpp'' 20 ''g'' ''b''),
       (2, make_AllocationInfo 2 2 7 ''b.cpp'' 21 ''g'' ''b'')]"
    by (simp add: run_defs)
  have cs: "map_at (categoryStats_m ?d) ''a'' = 100" by (simp add: run_defs)
  have ga: "''a'' \<notin> (\<lambda>pair. category (snd pair)) ` set (allocations_m ?d)"
    unfolding al by (simp add: make_AllocationInfo_def)
  have gb: "''b'' \<in> (\<lambda>pair. category (snd pair)) ` set (allocations_m ?d)"
    unfolding al by (simp add: make_AllocationInfo_def)
  have gf: "''b.cpp'' \<in> (\<lambda>pair. file_a (snd pair)) ` set (allocations_m ?d)"
    unfolding al by (simp add: make_AllocationInfo_def)
  have sb: "group_sum category (allocations_m ?d) ''b'' = 57"
    unfolding al by (simp add: group_sum_def make_AllocationInfo_def)
  have sf: "group_sum file_a (allocations_m ?d) ''b.cpp'' = 57"
    unfolding al by (simp add: group_sum_def make_AllocationInfo_def)
  from getStats_groups_live_set [of ?d 9 "''a''" "''b.cpp''"] ga
  have "map_of (leaksByCategory (getStats ?d 9)) ''a'' = None" by simp
  moreover from getStats_groups_live_set [of ?d 9 "''b''" "''b.cpp''"] gb gf sb sf
  have "map_of (leaksByCategory (getStats ?d 9)) ''b'' = Some 57"
    and "map_of (leaksByFile (getStats ?d 9)) ''b.cpp'' = Some 57" by simp_all
  ultimately show ?thesis using cs by blast
qed

section \<open>Calls that are not serialised\<close>

text \<open>Executed without interruption, the statements of a call are the call.\<close>

lemma track_statements_compose:
  assumes "i < length ts" and "ts ! i = InTrack T_guard now p sz f l func cat"
  shows "run_schedule d ts (i # i # i # i # i # sched) =
         run_schedule (trackAllocation d now p sz f l func cat) (ts[i := Returned]) sched"
  using assms by (simp add: trackAllocation_def Let_def)

lemma untrack_statements_compose:
  assumes "i < length ts" and "ts ! i = InUntrack U_guard p"
  shows "run_schedule d ts (i # i # i # i # i # sched) =
         run_schedule (untrackAllocation d p) (ts[i := Returned]) sched"
  using assms by (auto simp: untrackAllocation_def split: option.splits)

text \<open>
  C7. The calls are not serialised by any lock. On a fresh detector let one thread call
  \<open>trackAllocation\<close> for address 1 with 8 bytes and another \<open>untrackAllocation\<close> for
  address 1. When the untrack finds the record and subtracts its size between the
  insertion of the record and the addition to \<open>currentMemoryUsage_\<close>, both calls
  return with \<open>peakMemoryUsage_\<close> at 0, whereas track before untrack and untrack
  before track both end with the peak at 8: the outcome is that of no order of the
  two calls.
\<close>

theorem unlocked_calls_not_serialisable:
  "run_schedule getInstance
     [InTrack T_guard 0 1 8 ''a.cpp'' 10 ''f'' ''a'', InUntrack U_guard 1]
     [0, 0, 1, 1, 1, 0, 0, 1, 1, 0] =
     Some (\<lparr>enabled_m = True, allocations_m = [], currentMemoryUsage_m = 0,
            peakMemoryUsage_m = 0, categoryStats_m = [(''a'', 0)]\<rparr>,
           [Returned, Returned]) \<and>
   run_schedule getInstance
     [InTrack T_guard 0 1 8 ''a.cpp'' 10 ''f'' ''a'', InUntrack U_guard 1]
     [0, 0, 0, 0, 0, 1, 1, 1, 1, 1] =
     Some (untrackAllocation (trackAllocation getInstance 0 1 8 ''a.cpp'' 10 ''f'' ''a'') 1,
           [Returned, Returned]) \<and>
   run_schedule getInstance
     [InTrack T_guard 0 1 8 ''a.cpp'' 10 ''f'' ''a'', InUntrack U_guard 1]
     [1, 1, 1, 1, 1, 0, 0, 0, 0, 0] =
     Some (trackAllocation (untrackAllocation getInstance 1) 0 1 8 ''a.cpp'' 10 ''f'' ''a'',
           [Returned, Returned]) \<and>
   peakMemoryUsage_m
     (untrackAllocation (trackAllocation getInstance 0 1 8 ''a.cpp'' 10 ''f'' ''a'') 1) = 8 \<and>
   peakMemoryUsage_m
     (trackAllocation (untrackAllocation getInstance 1) 0 1 8 ''a.cpp'' 10 ''f'' ''a'') = 8"
proof -
  let ?T = "InTrack T_guard 0 1 8 ''a.cpp'' 10 ''f'' ''a''"
  let ?U = "InUntrack U_guard 1"
  have mixed: "run_schedule getInstance [?T, ?U] [0, 0, 1, 1, 1, 0, 0, 1, 1, 0] =
      Some (\<lparr>enabled_m = True, allocations_m = [], currentMemoryUsage_m = 0,
             peakMemoryUsage_m = 0, categoryStats_m = [(''a'', 0)]\<rparr>,
            [Returned, Returned])"
    by (simp add: run_defs)
  have tu: "run_schedule getInstance [?T, ?U] [0, 0, 0, 0, 0, 1, 1, 1, 1, 1] =
      Some (untrackAllocation (trackAllocation getInstance 0 1 8 ''a.cpp'' 10 ''f'' ''a'') 1,
            [Returned, Returned])"
    by (simp add: run_defs)
  have ut: "run_schedule getInstance [?T, ?U] [1, 1, 1, 1, 1, 0, 0, 0, 0, 0] =
      Some (trackAllocation (untrackAllocation getInstance 1) 0 1 8 ''a.cpp'' 10 ''f'' ''a'',
            [Returned, Returned])"
    by (simp add: run_defs)
  have p1: "peakMemoryUsage_m
      (untrackAllocation (trackAllocation getInstance 0 1 8 ''a.cpp'' 10 ''f'' ''a'') 1) = 8"
    by (simp add: run_defs)
  have p2: "peakMemoryUsage_m
      (trackAllocation (untrackAllocation getInstance 1) 0 1 8 ''a.cpp'' 10 ''f'' ''a'') = 8"
    by (simp add: run_defs)
  from mixed tu ut p1 p2 show ?thesis by blast
qed

theorem unlocked_calls_not_serialisable_witness:
  "run_schedule getInstance
     [InTrack T_guard 0 1 8 ''a.cpp'' 10 ''f'' ''a'', InUntrack U_guard 1]
     [0, 0, 1, 1, 1, 0, 0, 1, 1, 0] \<noteq>
   run_schedule getInstance
     [InTrack T_guard 0 1 8 ''a.cpp'' 10 ''f'' ''a'', InUntrack U_guard 1]
     [0, 0, 0, 0, 0, 1, 1, 1, 1, 1] \<and>
   run_schedule getInstance
     [InTrack T_guard 0 1 8 ''a.cpp'' 10 ''f'' ''a'', InUntrack U_guard 1]
     [0, 0, 1, 1, 1, 0, 0, 1, 1, 0] \<noteq>
   run_schedule getInstance
     [InTrack T_guard 0 1 8 ''a.cpp'' 10 ''f'' ''a'', InUntrack U_guard 1]
     [1, 1, 1, 1, 1, 0, 0, 0, 0, 0]"
proof -
  let ?T = "InTrack T_guard 0 1 8 ''a.cpp'' 10 ''f'' ''a''"
  let ?U = "InUntrack U_guard 1"
  let ?tu = "untrackAllocation (trackAllocation getInstance 0 1 8 ''a.cpp'' 10 ''f'' ''a'') 1"
  let ?ut = "trackAllocation (untrackAllocation getInstance 1) 0 1 8 ''a.cpp'' 10 ''f'' ''a''"
  let ?mixed = "\<lparr>enabled_m = True, allocations_m = [], currentMemoryUsage_m = 0,
      peakMemoryUsage_m = 0, categoryStats_m = [(''a'', 0)]\<rparr>"
  note t = unlocked_calls_not_serialisable
  from t have m: "run_schedule getInstance [?T, ?U] [0, 0, 1, 1, 1, 0, 0, 1, 1, 0] =
      Some (?mixed, [Returned, Returned])" by blast
  from t have tu: "run_schedule getInstance [?T, ?U] [0, 0, 0, 0, 0, 1, 1, 1, 1, 1] =
      Some (?tu, [Returned, Returned])" by blast
  from t have ut: "run_schedule getInstance [?T, ?U] [1, 1, 1, 1, 1, 0, 0, 0, 0, 0] =
      Some (?ut, [Returned, Returned])" by blast
  from t have p1: "peakMemoryUsage_m ?tu = 8" and p2: "peakMemoryUsage_m ?ut = 8" by blast+
  have "?mixed \<noteq> ?tu"
  proof
    assume "?mixed = ?tu"
    then have "peakMemoryUsage_m ?mixed = peakMemoryUsage_m ?tu" by (rule arg_cong)
    with p1 show False by simp
  qed
  moreover have "?mixed \<noteq> ?ut"
  proof
    assume "?mixed = ?ut"
    then have "peakMemoryUsage_m ?mixed = peakMemoryUsage_m ?ut" by (rule arg_cong)
    with p2 show False by simp
  qed
  ultimately show ?thesis unfolding m tu ut by simp
qed

section \<open>Subtracting more than a counter holds\<close>

lemma uint_sub_wrap:
  "uint (a - b :: size_t) =
     (if uint b \<le> uint a then uint a - uint b else uint a - uint b + 2 ^ 64)"
  using uint_sub_if' [of a b] by simp

lemma uint_sub_wrap_pos: "uint (a :: size_t) < uint b \<Longrightarrow> 0 < uint (a - b :: size_t)"
proof -
  assume lt: "uint a < uint b"
  have "uint b < 2 ^ 64" using uint_lt2p [of b] by simp
  moreover have "0 \<le> uint a" by simp
  moreover from lt have "uint (a - b) = uint a - uint b + 2 ^ 64" by (simp add: uint_sub_wrap)
  ultimately show ?thesis by linarith
qed

text \<open>
  C8, as the code has it. \<open>currentMemoryUsage_\<close> and the category totals are unsigned
  \<open>size_t\<close> counters. Untracking a live record subtracts its size from both modulo
  \<open>2 ^ 64\<close>: when the counter holds less than the size, its new value is the old one
  minus the size plus \<open>2 ^ 64\<close>, a positive number, so it is neither clamped at zero
  nor negative.
\<close>

theorem untrack_wraps_unsigned:
  assumes "enabled_m d" and "p \<noteq> 0" and "map_of (allocations_m d) p = Some info"
  shows "uint (currentMemoryUsage_m (untrackAllocation d p)) =
           (if uint (size_a info) \<le> uint (currentMemoryUsage_m d)
            then uint (currentMemoryUsage_m d) - uint (size_a info)
            else uint (currentMemoryUsage_m d) - uint (size_a info) + 2 ^ 64) \<and>
         uint (map_at (categoryStats_m (untrackAllocation d p)) (category info)) =
           (if uint (size_a info) \<le> uint (map_at (categoryStats_m d) (category info))
            then uint (map_at (categoryStats_m d) (category info)) - uint (size_a info)
            else uint (map_at (categoryStats_m d) (category info)) - uint (size_a info) + 2 ^ 64) \<and>
         (uint (currentMemoryUsage_m d) < uint (size_a info) \<longrightarrow>
            0 < uint (currentMemoryUsage_m (untrackAllocation d p))) \<and>
         (uint (map_at (categoryStats_m d) (category info)) < uint (size_a info) \<longrightarrow>
            0 < uint (map_at (categoryStats_m (untrackAllocation d p)) (category info)))"
proof -
  have u: "untrackAllocation d p =
      d\<lparr>currentMemoryUsage_m := currentMemoryUsage_m d - size_a info,
        categoryStats_m := map_sub_at (category info) (size_a info) (categoryStats_m d),
        allocations_m := map_erase p (allocations_m d)\<rparr>"
    using assms by (simp add: untrackAllocation_def)
  have c: "currentMemoryUsage_m (untrackAllocation d p) = currentMemoryUsage_m d - size_a info"
    by (simp add: u)
  have k: "map_at (categoryStats_m (untrackAllocation d p)) (category info) =
      map_at (categoryStats_m d) (category info) - size_a info"
    by (simp add: u map_at_map_sub_at)
  show ?thesis unfolding c k
    using uint_sub_wrap [of "currentMemoryUsage_m d" "size_a info"]
      uint_sub_wrap [of "map_at (categoryStats_m d) (category info)" "size_a info"]
      uint_sub_wrap_pos [of "currentMemoryUsage_m d" "size_a info"]
      uint_sub_wrap_pos [of "map_at (categoryStats_m d) (category info)" "size_a info"]
    by blast
qed

theorem untrack_wraps_unsigned_witness:
  "enabled_m (replay getInstance
      [Track 0 1 18446744073709551615 ''a.cpp'' 10 ''f'' ''a'', Track 1 2 1 ''b.cpp'' 20 ''g'' ''a'']) \<and>
   map_of (allocations_m (replay getInstance
      [Track 0 1 18446744073709551615 ''a.cpp'' 10 ''f'' ''a'', Track 1 2 1 ''b.cpp'' 20 ''g'' ''a''])) 2 =
     Some (make_AllocationInfo 1 2 1 ''b.cpp'' 20 ''g'' ''a'') \<and>
   uint (currentMemoryUsage_m (replay getInstance
      [Track 0 1 18446744073709551615 ''a.cpp'' 10 ''f'' ''a'', Track 1 2 1 ''b.cpp'' 20 ''g'' ''a''])) = 0 \<and>
   uint (currentMemoryUsage_m (untrackAllocation (replay getInstance
      [Track 0 1 18446744073709551615 ''a.cpp'' 10 ''f'' ''a'', Track 1 2 1 ''b.cpp'' 20 ''g'' ''a'']) 2)) =
     18446744073709551615 \<and>
   0 < uint (currentMemoryUsage_m (untrackAllocation (replay getInstance
      [Track 0 1 18446744073709551615 ''a.cpp'' 10 ''f'' ''a'', Track 1 2 1 ''b.cpp'' 20 ''g'' ''a'']) 2))"
proof -
  let ?d = "replay getInstance
      [Track 0 1 18446744073709551615 ''a.cpp'' 10 ''f'' ''a'', Track 1 2 1 ''b.cpp'' 20 ''g'' ''a'']"
  let ?i = "make_AllocationInfo 1 2 1 ''b.cpp'' 20 ''g'' ''a''"
  have en: "enabled_m ?d" by (simp add: run_defs)
  have nz: "(2::ptr) \<noteq> 0" by simp
  have lk: "map_of (allocations_m ?d) 2 = Some ?i" by (simp add: run_defs)
  have cur: "uint (currentMemoryUsage_m ?d) = 0" by (simp add: run_defs)
  have sz: "uint (size_a ?i) = 1" by (simp add: make_AllocationInfo_def)
  note w = untrack_wraps_unsigned [OF en nz lk]
  from w have "uint (currentMemoryUsage_m (untrackAllocation ?d 2)) =
      (if uint (size_a ?i) \<le> uint (currentMemoryUsage_m ?d)
       then uint (currentMemoryUsage_m ?d) - uint (size_a ?i)
       else uint (currentMemoryUsage_m ?d) - uint (size_a ?i) + 2 ^ 64)"
    by blast
  then have v: "uint (currentMemoryUsage_m (untrackAllocation ?d 2)) = 18446744073709551615"
    unfolding cur sz by simp
  then have "0 < uint (currentMemoryUsage_m (untrackAllocation ?d 2))" by simp
  with en lk cur v show ?thesis by blast
qed

text \<open>
  C8 as stated fails: with the counter and the total of category \<open>a\<close> at 0 (wrapped
  by two tracks of \<open>2 ^ 64 - 1\<close> bytes and 1 byte), untracking the 1-byte record
  leaves both at \<open>2 ^ 64 - 1\<close>, not at a negative value.
\<close>

theorem signed_drift_counterexample:
  "uint (currentMemoryUsage_m (replay getInstance
      [Track 0 1 18446744073709551615 ''a.cpp'' 10 ''f'' ''a'',
       Track 1 2 1 ''b.cpp'' 20 ''g'' ''a''])) = 0 \<and>
   map_of (allocations_m (replay getInstance
      [Track 0 1 18446744073709551615 ''a.cpp'' 10 ''f'' ''a'',
       Track 1 2 1 ''b.cpp'' 20 ''g'' ''a''])) 2 =
     Some (make_AllocationInfo 1 2 1 ''b.cpp'' 20 ''g'' ''a'') \<and>
   \<not> uint (currentMemoryUsage_m (replay getInstance
      [Track 0 1 18446744073709551615 ''a.cpp'' 10 ''f'' ''a'',
       Track 1 2 1 ''b.cpp'' 20 ''g'' ''a'', Untrack 2])) < 0 \<and>
   uint (currentMemoryUsage_m (replay getInstance
      [Track 0 1 18446744073709551615 ''a.cpp'' 10 ''f'' ''a'',
       Track 1 2 1 ''b.cpp'' 20 ''g'' ''a'', Untrack 2])) = 18446744073709551615 \<and>
   uint (map_at (categoryStats_m (replay getInstance
      [Track 0 1 18446744073709551615 ''a.cpp'' 10 ''f'' ''a'',
       Track 1 2 1 ''b.cpp'' 20 ''g'' ''a'', Untrack 2])) ''a'') = 18446744073709551615"
  by (simp add: getInstance_def trackAllocation_def untrackAllocation_def
      make_AllocationInfo_def map_add_at_def map_sub_at_def map_at_def Let_def)

section \<open>Clearing\<close>

text \<open>
  C9. \<open>clear()\<close> empties the live map, sets \<open>currentMemoryUsage_\<close> to zero and empties
  the category totals, so that every category total reads zero; \<open>peakMemoryUsage_\<close>
  and the enabled switch are exactly as before.
\<close>

theorem clear_effect:
  "allocations_m (clear d) = [] \<and>
   currentMemoryUsage_m (clear d) = 0 \<and>
   categoryStats_m (clear d) = [] \<and>
   (\<forall>c. map_at (categoryStats_m (clear d)) c = 0) \<and>
   peakMemoryUsage_m (clear d) = peakMemoryUsage_m d \<and>
   enabled_m (clear d) = enabled_m d \<and>
   getLeakCount (clear d) = 0 \<and> \<not> hasLeaks (clear d)"
  by (simp add: clear_def map_at_def getLeakCount_def hasLeaks_def)

theorem clear_effect_witness:
  "peakMemoryUsage_m (replay getInstance [Track 0 1 100 ''a.cpp'' 10 ''f'' ''a'']) = 100 \<and>
   allocations_m (clear (replay getInstance [Track 0 1 100 ''a.cpp'' 10 ''f'' ''a''])) = [] \<and>
   currentMemoryUsage_m (clear (replay getInstance [Track 0 1 100 ''a.cpp'' 10 ''f'' ''a''])) = 0 \<and>
   map_at (categoryStats_m (clear (replay getInstance [Track 0 1 100 ''a.cpp'' 10 ''f'' ''a'']))) ''a'' = 0 \<and>
   peakMemoryUsage_m (clear (replay getInstance [Track 0 1 100 ''a.cpp'' 10 ''f'' ''a''])) = 100"
proof -
  let ?d = "replay getInstance [Track 0 1 100 ''a.cpp'' 10 ''f'' ''a'']"
  have pk: "peakMemoryUsage_m ?d = 100" by (simp add: run_defs)
  from clear_effect [of ?d]
  have "allocations_m (clear ?d) = []" and "currentMemoryUsage_m (clear ?d) = 0"
    and "map_at (categoryStats_m (clear ?d)) ''a'' = 0"
    and "peakMemoryUsage_m (clear ?d) = peakMemoryUsage_m ?d"
    by blast+
  with pk show ?thesis by simp
qed

section \<open>The null pointer\<close>

text \<open>
  C10. In every state, enabled or not, tracking or untracking the null pointer returns
  the detector unchanged.
\<close>

theorem null_pointer_noop:
  "trackAllocation d now 0 sz f l func cat = d \<and> untrackAllocation d 0 = d"
  by (simp add: trackAllocation_def untrackAllocation_def)

theorem null_pointer_noop_witness:
  "enabled_m getInstance \<and>
   trackAllocation getInstance 5 0 64 ''a.cpp'' 3 ''f'' ''general'' = getInstance \<and>
   untrackAllocation getInstance 0 = getInstance"
  using null_pointer_noop [of getInstance 5 64 "''a.cpp''" 3 "''f''" "''general''"]
  by (simp add: getInstance_def)

end
